theory Spec2Isabelle
  imports Main "HOL-Library.Sublist"
begin

section \<open>The file search manager of the input enhancer (src/fileSearchManager.ts)\<close>

text \<open>
  A shallow embedding of the class \<open>FileSearchManager\<close>. JavaScript strings are modelled
  as \<^typ>\<open>string\<close>; a \<^typ>\<open>char\<close> stands for one code unit, which is exact on ASCII
  text. The path separator \<open>path.sep\<close> is the POSIX one.
\<close>

subsection \<open>Strings\<close>

definition sep :: char where
  "sep = CHR ''/''"

definition startsWith :: "string \<Rightarrow> string \<Rightarrow> bool" where
  "startsWith s p = prefix p s"

definition endsWith :: "string \<Rightarrow> string \<Rightarrow> bool" where
  "endsWith s p = suffix p s"

text \<open>\<open>s.includes(q)\<close>: \<open>q\<close> occurs in \<open>s\<close> as a contiguous substring.\<close>

fun includesStr :: "string \<Rightarrow> string \<Rightarrow> bool" where
  "includesStr [] q = (q = [])"
| "includesStr (c # s) q = (prefix q (c # s) \<or> includesStr s q)"

text \<open>\<open>toLowerCase\<close> on the ASCII letters; every other code unit is kept.\<close>

definition lowerChar :: "char \<Rightarrow> char" where
  "lowerChar c = (let n = (of_char c :: nat) in if 65 \<le> n \<and> n \<le> 90 then char_of (n + 32) else c)"

definition toLowerCase :: "string \<Rightarrow> string" where
  "toLowerCase s = map lowerChar s"

text \<open>\<open>s.split(path.sep)\<close>: the segments between separators; never the empty list.\<close>

fun split :: "string \<Rightarrow> string list" where
  "split [] = [] # []"
| "split (c # s) = (if c = sep then [] # split s
                    else (case split s of [] \<Rightarrow> [c] # [] | p # ps \<Rightarrow> (c # p) # ps))"

text \<open>\<open>parts.join(path.sep)\<close>.\<close>

fun join :: "string list \<Rightarrow> string" where
  "join [] = []"
| "join [p] = p"
| "join (p # q # ps) = p @ sep # join (q # ps)"

subsection \<open>Suggestions\<close>

datatype kind = File | Folder

record FileSuggestion =
  name :: string
  fullPath :: string
  relativePath :: string
  type :: kind
  icon :: "string option"

subsection \<open>The insertion format\<close>

text \<open>\<open>query.replace(/^@/, '')\<close> removes one leading \<open>@\<close>; \<open>slice(0, -1)\<close> is \<open>butlast\<close>.\<close>

definition extractFolderPath :: "string \<Rightarrow> string" where
  "extractFolderPath query =
     (let folderPath = (case query of [] \<Rightarrow> [] | c # r \<Rightarrow> if c = CHR ''@'' then r else c # r)
      in if endsWith folderPath ''/'' then butlast folderPath else folderPath)"

definition formatForInsertion :: "FileSuggestion \<Rightarrow> bool \<Rightarrow> string" where
  "formatForInsertion suggestion addTrailingSlash =
     (if type suggestion = Folder \<and> addTrailingSlash
      then ''@'' @ relativePath suggestion @ ''/''
      else ''@'' @ relativePath suggestion)"

subsection \<open>Node's \<open>path\<close> module, POSIX flavour\<close>

text \<open>
  \<open>normalizeString\<close> works segment by segment: empty segments and \<open>.\<close> are dropped,
  \<open>..\<close> removes the segment before it unless there is none or it is \<open>..\<close> itself.
\<close>

fun normalizeString :: "string list \<Rightarrow> bool \<Rightarrow> string list \<Rightarrow> string list" where
  "normalizeString [] allowAboveRoot res = res"
| "normalizeString (s # ss) allowAboveRoot res =
     (if s = [] \<or> s = ''.'' then normalizeString ss allowAboveRoot res
      else if s = ''..'' then
        (if res \<noteq> [] \<and> last res \<noteq> ''..'' then normalizeString ss allowAboveRoot (butlast res)
         else if allowAboveRoot then normalizeString ss allowAboveRoot (res @ [''..''])
         else normalizeString ss allowAboveRoot res)
      else normalizeString ss allowAboveRoot (res @ [s]))"

definition normalize :: "string \<Rightarrow> string" where
  "normalize p =
     (if p = [] then ''.''
      else let isAbsolute = (hd p = sep);
               trailingSeparator = (last p = sep);
               q = join (normalizeString (split p) (\<not> isAbsolute) [])
           in if q = [] then (if isAbsolute then ''/'' else if trailingSeparator then ''./'' else ''.'')
              else (if isAbsolute then ''/'' else []) @ q @ (if trailingSeparator then ''/'' else []))"

definition path_join :: "string \<Rightarrow> string \<Rightarrow> string" where
  "path_join a b =
     (let joined = (if a = [] then b else if b = [] then a else a @ sep # b)
      in if joined = [] then ''.'' else normalize joined)"

text \<open>
  \<open>path.dirname\<close>, \<open>path.basename\<close> and the \<open>dir\<close> and \<open>base\<close> fields of
  \<open>path.parse\<close> scan the path from its end: trailing separators are skipped, then the
  last segment, and the separator found there ends the directory part.
\<close>

definition path_dirname :: "string \<Rightarrow> string" where
  "path_dirname p =
     (case p of [] \<Rightarrow> ''.''
      | c # body \<Rightarrow>
          (let r = dropWhile (\<lambda>x. x \<noteq> sep) (dropWhile (\<lambda>x. x = sep) (rev body))
           in if r = [] then (if c = sep then ''/'' else ''.'')
              else if c = sep \<and> length r = 1 then ''//''
              else c # rev (tl r)))"

definition path_basename :: "string \<Rightarrow> string" where
  "path_basename p = rev (takeWhile (\<lambda>x. x \<noteq> sep) (dropWhile (\<lambda>x. x = sep) (rev p)))"

definition parse_dir :: "string \<Rightarrow> string" where
  "parse_dir p =
     (let isAbsolute = (p \<noteq> [] \<and> hd p = sep);
          body = (if isAbsolute then tl p else p);
          root = (if isAbsolute then ''/'' else []);
          r = dropWhile (\<lambda>x. x \<noteq> sep) (dropWhile (\<lambda>x. x = sep) (rev body))
      in if r = [] then root else root @ rev (tl r))"

definition parse_base :: "string \<Rightarrow> string" where
  "parse_base p =
     (let body = (if p \<noteq> [] \<and> hd p = sep then tl p else p)
      in rev (takeWhile (\<lambda>x. x \<noteq> sep) (dropWhile (\<lambda>x. x = sep) (rev body))))"

subsection \<open>Sets in insertion order, and \<open>Array.prototype.sort\<close>\<close>

text \<open>A JavaScript \<open>Set\<close> iterates in insertion order: a list without repetitions.\<close>

definition set_add :: "'a \<Rightarrow> 'a list \<Rightarrow> 'a list" where
  "set_add x xs = (if x \<in> set xs then xs else xs @ [x])"

definition set_delete :: "'a \<Rightarrow> 'a list \<Rightarrow> 'a list" where
  "set_delete x xs = filter (\<lambda>y. y \<noteq> x) xs"

text \<open>
  \<open>sort\<close> is stable: an element goes before the first later element it does not compare
  greater than. For a consistent comparator this is the one result the language allows.
\<close>

fun insertBy :: "('a \<Rightarrow> 'a \<Rightarrow> int) \<Rightarrow> 'a \<Rightarrow> 'a list \<Rightarrow> 'a list" where
  "insertBy cmp x [] = [x]"
| "insertBy cmp x (y # ys) = (if cmp x y \<le> 0 then x # y # ys else y # insertBy cmp x ys)"

fun sortBy :: "('a \<Rightarrow> 'a \<Rightarrow> int) \<Rightarrow> 'a list \<Rightarrow> 'a list" where
  "sortBy cmp [] = []"
| "sortBy cmp (x # xs) = insertBy cmp x (sortBy cmp xs)"

text \<open>The default comparison of \<open>sort()\<close> on strings: code units, lexicographically.\<close>

fun defaultCompare :: "string \<Rightarrow> string \<Rightarrow> int" where
  "defaultCompare [] [] = 0"
| "defaultCompare [] (d # t) = - 1"
| "defaultCompare (c # s) [] = 1"
| "defaultCompare (c # s) (d # t) =
     (if (of_char c :: nat) < of_char d then - 1
      else if (of_char d :: nat) < of_char c then 1
      else defaultCompare s t)"

subsection \<open>The host: editor, file system, clock and locale\<close>

datatype error = HostError

text \<open>
  What the manager reads from outside during one call: the result of
  \<open>workspace.findFiles\<close> (the paths found, or a failure), \<open>fs.readDirectory\<close> (names with
  a directory flag, or a failure), \<open>Date.now()\<close>, \<open>path.relative\<close>, the glyph that
  \<open>getFileIcon\<close> looks up for the extension of a name, and \<open>String.prototype.localeCompare\<close>.
\<close>

record host =
  findFiles :: "error + string list"
  readDirectory :: "string \<Rightarrow> error + (string \<times> bool) list"
  now :: int
  relative :: "string \<Rightarrow> string \<Rightarrow> string"
  fileIcon :: "string \<Rightarrow> string"
  localeCompare :: "string \<Rightarrow> string \<Rightarrow> int"

definition folderIcon :: string where
  "folderIcon = [CHR 0xF0, CHR 0x9F, CHR 0x93, CHR 0x81]"

subsection \<open>The manager and its snapshot\<close>

record CachedFileData =
  files :: "FileSuggestion list"
  directoryMap :: "string \<rightharpoonup> FileSuggestion list"
  timestamp :: int

text \<open>
  \<open>fileSystemWatcher\<close> tells whether a watcher is installed; \<open>builds\<close> counts the
  enumerations started, the rebuild counter. The in-flight promise \<open>cacheBuildPromise\<close>
  is kept in the record \<open>engine\<close> further down, where a build is split at its
  \<open>await\<close>; the functions up to there run one call to its end with nothing in between.
\<close>

record manager =
  workspaceRoot :: string
  cachedData :: "CachedFileData option"
  fileSystemWatcher :: bool
  builds :: nat

definition CACHE_TTL :: int where
  "CACHE_TTL = 30000"

definition MAX_RESULTS :: nat where
  "MAX_RESULTS = 50"

definition MAX_CACHE_FILES :: int where
  "MAX_CACHE_FILES = 100000"

definition EXCLUDE_PATTERNS :: "string list" where
  "EXCLUDE_PATTERNS =
     [''**/node_modules/**'', ''**/.git/**'', ''**/dist/**'', ''**/build/**'',
      ''**/.vscode-test/**'', ''**/coverage/**'', ''**/.next/**'', ''**/out/**'',
      ''**/.turbo/**'', ''**/.venv/**'', ''**/__pycache__/**'', ''**/target/**'',
      ''**/vendor/**'', ''**/*.min.js'', ''**/*.min.css'']"

subsection \<open>Building the snapshot\<close>

text \<open>The suggestion made for one path found.\<close>

definition suggestionOf :: "host \<Rightarrow> string \<Rightarrow> string \<Rightarrow> FileSuggestion" where
  "suggestionOf h root uri =
     (let rel = relative h root uri
      in \<lparr>name = parse_base rel, fullPath = uri, relativePath = rel,
          type = File, icon = Some (fileIcon h (parse_base rel))\<rparr>)"

text \<open>The body of the loop over the paths found, on \<open>(files, directoryMap, allFolders)\<close>.\<close>

definition processUri ::
  "host \<Rightarrow> string \<Rightarrow> FileSuggestion list \<times> (string \<rightharpoonup> FileSuggestion list) \<times> string list
     \<Rightarrow> string \<Rightarrow> FileSuggestion list \<times> (string \<rightharpoonup> FileSuggestion list) \<times> string list" where
  "processUri h root acc uri =
     (case acc of (fs, dm, allFolders) \<Rightarrow>
        let suggestion = suggestionOf h root uri;
            dir = parse_dir (relativePath suggestion);
            dirKey = (if dir = [] then ''.'' else dir);
            dm1 = (case dm dirKey of None \<Rightarrow> dm(dirKey \<mapsto> [suggestion])
                   | Some l \<Rightarrow> dm(dirKey \<mapsto> l @ [suggestion]));
            parts = split dir;
            allFolders1 =
              (if dir \<noteq> []
               then foldl (\<lambda>s i. set_add (join (take (i + 1) parts)) s)
                      (set_add dir allFolders) [0..<length parts]
               else allFolders)
        in (fs @ [suggestion], dm1, allFolders1))"

definition initFolder :: "(string \<rightharpoonup> FileSuggestion list) \<Rightarrow> string \<Rightarrow> (string \<rightharpoonup> FileSuggestion list)" where
  "initFolder dm folder = (case dm folder of None \<Rightarrow> dm(folder \<mapsto> []) | Some l \<Rightarrow> dm)"

definition buildSnapshot :: "host \<Rightarrow> string \<Rightarrow> string list \<Rightarrow> CachedFileData" where
  "buildSnapshot h root uris =
     (case foldl (processUri h root) ([], Map.empty, []) uris of
        (fs, dm, allFolders) \<Rightarrow>
          \<lparr>files = fs, directoryMap = foldl initFolder dm allFolders, timestamp = now h\<rparr>)"

definition buildCache :: "manager \<Rightarrow> host \<Rightarrow> manager" where
  "buildCache m h =
     (if workspaceRoot m = [] then m
      else case findFiles h of
             Inl e \<Rightarrow> m\<lparr>cachedData := None, builds := builds m + 1\<rparr>
           | Inr uris \<Rightarrow> m\<lparr>cachedData := Some (buildSnapshot h (workspaceRoot m) uris),
                            builds := builds m + 1\<rparr>)"

definition isCacheValid :: "manager \<Rightarrow> host \<Rightarrow> bool" where
  "isCacheValid m h =
     (case cachedData m of None \<Rightarrow> False | Some d \<Rightarrow> now h - timestamp d < CACHE_TTL)"

definition ensureCache :: "manager \<Rightarrow> host \<Rightarrow> manager" where
  "ensureCache m h = (if \<not> isCacheValid m h then buildCache m h else m)"

subsection \<open>Browsing a directory\<close>

text \<open>
  The fallback listing. A pattern with its stars and separators removed excludes every
  name that contains it. A failing \<open>readDirectory\<close> is caught and gives no entries.
\<close>

definition stripGlob :: "string \<Rightarrow> string" where
  "stripGlob pattern = filter (\<lambda>c. c \<noteq> CHR ''*'' \<and> c \<noteq> CHR ''/'') pattern"

definition excluded :: "string \<Rightarrow> bool" where
  "excluded nm = (nm = ''.git'' \<or> (\<exists>pattern \<in> set EXCLUDE_PATTERNS. includesStr nm (stripGlob pattern)))"

definition fsEntry :: "manager \<Rightarrow> host \<Rightarrow> string \<Rightarrow> string \<times> bool \<Rightarrow> FileSuggestion" where
  "fsEntry m h currentPath e =
     (case e of (nm, isDirectory) \<Rightarrow>
        let rel = (if currentPath \<noteq> [] then path_join currentPath nm else nm)
        in \<lparr>name = nm, fullPath = path_join (workspaceRoot m) rel, relativePath = rel,
            type = (if isDirectory then Folder else File),
            icon = Some (if isDirectory then folderIcon else fileIcon h nm)\<rparr>)"

definition browseCompare :: "host \<Rightarrow> FileSuggestion \<Rightarrow> FileSuggestion \<Rightarrow> int" where
  "browseCompare h a b =
     (if type a \<noteq> type b then (if type a = Folder then - 1 else 1)
      else localeCompare h (name a) (name b))"

definition getDirectoryContentsFs :: "manager \<Rightarrow> host \<Rightarrow> string \<Rightarrow> FileSuggestion list" where
  "getDirectoryContentsFs m h currentPath =
     (let searchPath = (if currentPath \<noteq> [] then path_join (workspaceRoot m) currentPath
                        else workspaceRoot m)
      in case readDirectory h searchPath of
           Inl e \<Rightarrow> []
         | Inr entries \<Rightarrow>
             sortBy (browseCompare h)
               (map (fsEntry m h currentPath) (filter (\<lambda>e. \<not> excluded (fst e)) entries)))"

text \<open>
  One step of the scan for immediate subdirectories of \<open>currentPath\<close>. Further down,
  the test \<open>files.length >= MAX_CACHE_FILES * 0.9\<close> is written over the integers.
\<close>

definition scanSubdir :: "string \<Rightarrow> string list \<Rightarrow> FileSuggestion \<Rightarrow> string list" where
  "scanSubdir currentPath subdirs file =
     (let filePath = relativePath file;
          fileDir = path_dirname filePath
      in if currentPath = [] then
           (case split filePath of
              firstDir # _ # _ \<Rightarrow>
                if firstDir \<noteq> [] \<and> firstDir \<noteq> ''.'' then set_add firstDir subdirs else subdirs
            | _ \<Rightarrow> subdirs)
         else if startsWith fileDir (currentPath @ [sep]) then
           (case split (drop (length currentPath + 1) fileDir) of
              firstSubdir # _ \<Rightarrow>
                if firstSubdir \<noteq> [] then set_add (path_join currentPath firstSubdir) subdirs
                else subdirs
            | [] \<Rightarrow> subdirs)
         else subdirs)"

definition folderEntry :: "manager \<Rightarrow> string \<Rightarrow> FileSuggestion" where
  "folderEntry m subdir =
     \<lparr>name = path_basename subdir, fullPath = path_join (workspaceRoot m) subdir,
      relativePath = subdir, type = Folder, icon = Some folderIcon\<rparr>"

definition getDirectoryContents :: "manager \<Rightarrow> host \<Rightarrow> string \<Rightarrow> FileSuggestion list \<times> manager" where
  "getDirectoryContents m0 h currentPath =
     (let m = ensureCache m0 h
      in case cachedData m of
           None \<Rightarrow> (getDirectoryContentsFs m h currentPath, m)
         | Some d \<Rightarrow>
             let dirKey = (if currentPath = [] then ''.'' else currentPath);
                 cachedFiles = directoryMap d dirKey;
                 filesInDir = (case cachedFiles of None \<Rightarrow> []
                               | Some l \<Rightarrow> foldl (\<lambda>s f. set_add (relativePath f) s) [] l);
                 subdirs = foldl (\<lambda>s p. set_delete p s)
                             (foldl (scanSubdir currentPath) [] (files d)) filesInDir;
                 shouldLazyLoad = (MAX_CACHE_FILES * 9 \<le> int (length (files d)) * 10)
             in if shouldLazyLoad \<or> (cachedFiles = None \<and> subdirs = [])
                then (getDirectoryContentsFs m h currentPath, m)
                else (map (folderEntry m) (sortBy defaultCompare subdirs)
                      @ sortBy (\<lambda>a b. localeCompare h (name a) (name b))
                          (List.map_filter
                             (\<lambda>relPath. find (\<lambda>f. relativePath f = relPath) (files d))
                             filesInDir), m))"

subsection \<open>Searching by substring\<close>

definition inScope :: "string \<Rightarrow> FileSuggestion \<Rightarrow> bool" where
  "inScope currentPath file =
     (currentPath = [] \<or> startsWith (relativePath file) (currentPath @ [sep])
      \<or> relativePath file = currentPath)"

definition pushFile ::
  "FileSuggestion \<Rightarrow> FileSuggestion list \<times> string list \<Rightarrow> FileSuggestion list \<times> string list" where
  "pushFile file acc =
     (case acc of (results, seenFilePaths) \<Rightarrow>
        if relativePath file \<in> set seenFilePaths then (results, seenFilePaths)
        else (results @ [file], seenFilePaths @ [relativePath file]))"

definition matchFile ::
  "string \<Rightarrow> FileSuggestion \<Rightarrow> FileSuggestion list \<times> string list
     \<Rightarrow> FileSuggestion list \<times> string list" where
  "matchFile lowerQuery file acc =
     (if includesStr (toLowerCase (name file)) lowerQuery then pushFile file acc
      else if \<exists>part \<in> set (split (relativePath file)). includesStr (toLowerCase part) lowerQuery
      then pushFile file acc
      else acc)"

text \<open>The first loop: it stops as soon as the results reach the maximum.\<close>

fun scanFiles ::
  "string \<Rightarrow> string \<Rightarrow> FileSuggestion list \<Rightarrow> FileSuggestion list \<times> string list
     \<Rightarrow> FileSuggestion list \<times> string list" where
  "scanFiles lowerQuery currentPath [] acc = acc"
| "scanFiles lowerQuery currentPath (file # rest) acc =
     (if \<not> inScope currentPath file then scanFiles lowerQuery currentPath rest acc
      else let acc1 = matchFile lowerQuery file acc
           in if MAX_RESULTS \<le> length (fst acc1) then acc1
              else scanFiles lowerQuery currentPath rest acc1)"

text \<open>The inner loop of the second one, over the directory segments of one path.\<close>

definition pushFolder ::
  "manager \<Rightarrow> CachedFileData \<Rightarrow> string \<Rightarrow> string list
     \<Rightarrow> FileSuggestion list \<times> string list \<Rightarrow> nat \<Rightarrow> FileSuggestion list \<times> string list" where
  "pushFolder m d lowerQuery pathParts acc i =
     (case acc of (results, seenDirs) \<Rightarrow>
        let dirPart = pathParts ! i;
            dirPathSoFar = join (take (i + 1) pathParts)
        in if directoryMap d dirPathSoFar \<noteq> None
              \<and> includesStr (toLowerCase dirPart) lowerQuery \<and> dirPathSoFar \<notin> set seenDirs
           then (results @ [\<lparr>name = dirPart, fullPath = path_join (workspaceRoot m) dirPathSoFar,
                              relativePath = dirPathSoFar, type = Folder, icon = Some folderIcon\<rparr>],
                 seenDirs @ [dirPathSoFar])
           else (results, seenDirs))"

fun scanFolders ::
  "manager \<Rightarrow> CachedFileData \<Rightarrow> string \<Rightarrow> string \<Rightarrow> FileSuggestion list
     \<Rightarrow> FileSuggestion list \<times> string list \<Rightarrow> FileSuggestion list \<times> string list" where
  "scanFolders m d lowerQuery currentPath [] acc = acc"
| "scanFolders m d lowerQuery currentPath (file # rest) acc =
     (if MAX_RESULTS \<le> length (fst acc) then acc
      else if \<not> inScope currentPath file then scanFolders m d lowerQuery currentPath rest acc
      else let pathParts = split (relativePath file)
           in scanFolders m d lowerQuery currentPath rest
                (foldl (pushFolder m d lowerQuery pathParts) acc [0..<length pathParts - 1]))"

definition rankCompare :: "host \<Rightarrow> string \<Rightarrow> FileSuggestion \<Rightarrow> FileSuggestion \<Rightarrow> int" where
  "rankCompare h lowerQuery a b =
     (let aExact = (toLowerCase (name a) = lowerQuery);
          bExact = (toLowerCase (name b) = lowerQuery)
      in if aExact \<and> \<not> bExact then - 1
         else if \<not> aExact \<and> bExact then 1
         else if type a \<noteq> type b then (if type a = Folder then - 1 else 1)
         else localeCompare h (name a) (name b))"

text \<open>What the two loops collect, before the sort.\<close>

definition collect :: "manager \<Rightarrow> CachedFileData \<Rightarrow> string \<Rightarrow> string \<Rightarrow> FileSuggestion list" where
  "collect m d lowerQuery currentPath =
     fst (scanFolders m d lowerQuery currentPath (files d)
            (fst (scanFiles lowerQuery currentPath (files d) ([], [])), []))"

definition filterFromCache :: "manager \<Rightarrow> host \<Rightarrow> string \<Rightarrow> string \<Rightarrow> FileSuggestion list" where
  "filterFromCache m h query currentPath =
     (case cachedData m of
        None \<Rightarrow> []
      | Some d \<Rightarrow>
          take MAX_RESULTS
            (sortBy (rankCompare h (toLowerCase query))
               (collect m d (toLowerCase query) currentPath)))"

subsection \<open>The public operations\<close>

definition search :: "manager \<Rightarrow> host \<Rightarrow> string \<Rightarrow> string \<Rightarrow> FileSuggestion list \<times> manager" where
  "search m h query currentPath =
     (if workspaceRoot m = [] then ([], m)
      else let m1 = ensureCache m h
           in if cachedData m1 = None then ([], m1)
              else if query = [] then getDirectoryContents m1 h currentPath
              else (filterFromCache m1 h query currentPath, m1))"

text \<open>
  The watcher is installed only for a non-empty root, and creating it may fail, which is
  caught. A file system notification reaches the manager through the watcher.
\<close>

definition setupFileSystemWatcher :: "manager \<Rightarrow> bool \<Rightarrow> manager" where
  "setupFileSystemWatcher m created =
     (if workspaceRoot m = [] then m
      else if created then m\<lparr>fileSystemWatcher := True\<rparr> else m)"

definition firstFolder :: "string list \<Rightarrow> string" where
  "firstFolder workspaceFolders = (case workspaceFolders of [] \<Rightarrow> [] | f # _ \<Rightarrow> f)"

definition newManager :: "string list \<Rightarrow> bool \<Rightarrow> manager" where
  "newManager workspaceFolders created =
     setupFileSystemWatcher
       \<lparr>workspaceRoot = firstFolder workspaceFolders, cachedData = None,
        fileSystemWatcher = False, builds = 0\<rparr> created"

definition invalidateCacheQuietly :: "manager \<Rightarrow> manager" where
  "invalidateCacheQuietly m = m\<lparr>cachedData := None\<rparr>"

definition fsNotification :: "manager \<Rightarrow> manager" where
  "fsNotification m = (if fileSystemWatcher m then invalidateCacheQuietly m else m)"

definition refreshWorkspace :: "manager \<Rightarrow> string list \<Rightarrow> bool \<Rightarrow> manager" where
  "refreshWorkspace m workspaceFolders created =
     setupFileSystemWatcher
       (m\<lparr>fileSystemWatcher := False, workspaceRoot := firstFolder workspaceFolders,
          cachedData := None\<rparr>) created"

definition dispose :: "manager \<Rightarrow> manager" where
  "dispose m = m\<lparr>fileSystemWatcher := False, cachedData := None\<rparr>"

definition invalidateCache :: "manager \<Rightarrow> host \<Rightarrow> manager" where
  "invalidateCache m h = ensureCache (m\<lparr>cachedData := None\<rparr>) h"

subsection \<open>Notions used to state the properties\<close>

text \<open>
  A comparator is consistent when it is total and transitive as a preorder; \<open>sort\<close> is
  only specified for such comparators. Two elements are tied when neither goes first.
\<close>

definition consistentComparator :: "('a \<Rightarrow> 'a \<Rightarrow> int) \<Rightarrow> bool" where
  "consistentComparator cmp =
     ((\<forall>a b. cmp a b \<le> 0 \<or> cmp b a \<le> 0)
      \<and> (\<forall>a b c. cmp a b \<le> 0 \<longrightarrow> cmp b c \<le> 0 \<longrightarrow> cmp a c \<le> 0))"

definition tied :: "('a \<Rightarrow> 'a \<Rightarrow> int) \<Rightarrow> 'a \<Rightarrow> 'a \<Rightarrow> bool" where
  "tied cmp a b = (cmp a b \<le> 0 \<and> cmp b a \<le> 0)"

text \<open>
  The ancestor directories of a relative path: its proper prefixes, segment by segment.
  \<open>foldersOf\<close> names what the build loop puts into \<open>allFolders\<close> for one path.
\<close>

definition ancestorDirs :: "string \<Rightarrow> string list" where
  "ancestorDirs rel = map (\<lambda>k. join (take k (split rel))) [1..<length (split rel)]"

definition foldersOf :: "string \<Rightarrow> string set" where
  "foldersOf rel =
     (let dir = parse_dir rel
      in if dir = [] then {}
         else insert dir ((\<lambda>i. join (take (i + 1) (split dir))) ` {0..<length (split dir)}))"

text \<open>
  The candidates of a search, as section 4.4 of the specification speaks of them: the two
  loops of \<open>filterFromCache\<close> without their stops at the maximum. Matching files come in
  cache order, one per relative path, then matching folders, one per path;
  \<open>matchedFoldersUpTo\<close> are the folders that the first \<open>k\<close> files of the cache give.
  \<open>rankedTop\<close> is the first \<open>MAX_RESULTS\<close> of all candidates under the ranking.
\<close>

definition fileStep ::
  "string \<Rightarrow> string \<Rightarrow> FileSuggestion list \<times> string list \<Rightarrow> FileSuggestion
     \<Rightarrow> FileSuggestion list \<times> string list" where
  "fileStep lowerQuery currentPath acc file =
     (if inScope currentPath file then matchFile lowerQuery file acc else acc)"

definition folderStep ::
  "manager \<Rightarrow> CachedFileData \<Rightarrow> string \<Rightarrow> string \<Rightarrow> FileSuggestion list \<times> string list
     \<Rightarrow> FileSuggestion \<Rightarrow> FileSuggestion list \<times> string list" where
  "folderStep m d lowerQuery currentPath acc file =
     (if inScope currentPath file
      then foldl (pushFolder m d lowerQuery (split (relativePath file))) acc
             [0..<length (split (relativePath file)) - 1]
      else acc)"

definition matchedFiles :: "CachedFileData \<Rightarrow> string \<Rightarrow> string \<Rightarrow> FileSuggestion list" where
  "matchedFiles d lowerQuery currentPath =
     fst (foldl (fileStep lowerQuery currentPath) ([], []) (files d))"

definition matchedFolders ::
  "manager \<Rightarrow> CachedFileData \<Rightarrow> string \<Rightarrow> string \<Rightarrow> FileSuggestion list" where
  "matchedFolders m d lowerQuery currentPath =
     fst (foldl (folderStep m d lowerQuery currentPath) ([], []) (files d))"

definition matchedFoldersUpTo ::
  "manager \<Rightarrow> CachedFileData \<Rightarrow> string \<Rightarrow> string \<Rightarrow> nat \<Rightarrow> FileSuggestion list" where
  "matchedFoldersUpTo m d lowerQuery currentPath k =
     fst (foldl (folderStep m d lowerQuery currentPath) ([], []) (take k (files d)))"

definition candidates ::
  "manager \<Rightarrow> CachedFileData \<Rightarrow> string \<Rightarrow> string \<Rightarrow> FileSuggestion list" where
  "candidates m d lowerQuery currentPath =
     matchedFiles d lowerQuery currentPath @ matchedFolders m d lowerQuery currentPath"

definition rankedTop ::
  "manager \<Rightarrow> host \<Rightarrow> CachedFileData \<Rightarrow> string \<Rightarrow> string \<Rightarrow> FileSuggestion list" where
  "rankedTop m h d query currentPath =
     take MAX_RESULTS
       (sortBy (rankCompare h (toLowerCase query))
          (candidates m d (toLowerCase query) currentPath))"









text \<open>The snapshot a build started now would leave: absent when the enumeration fails.\<close>

definition rebuilt :: "manager \<Rightarrow> host \<Rightarrow> CachedFileData option" where
  "rebuilt m h =
     (case findFiles h of Inl e \<Rightarrow> None
      | Inr uris \<Rightarrow> Some (buildSnapshot h (workspaceRoot m) uris))"

subsection \<open>Searches and builds on the event loop\<close>

text \<open>
  \<open>buildCache\<close> suspends at \<open>await findFiles\<close>, and notifications of the watcher run
  while it is suspended. So a search that needs a build is two events: it begins (a build
  in flight is joined, otherwise one is started and \<open>cacheBuildPromise\<close> is set) and,
  when the enumeration settles, the build stores its snapshot or, on failure, none, clears
  the promise, and the search resumes at its test of \<open>cachedData\<close>. A search that finds
  the snapshot valid, or no workspace root, returns without suspending. \<open>answer\<close> is
  \<open>search\<close> from that test on.
\<close>

datatype outcome = Returned "FileSuggestion list" | Suspended

record engine =
  core :: manager
  cacheBuildPromise :: bool

definition answer :: "manager \<Rightarrow> host \<Rightarrow> string \<Rightarrow> string \<Rightarrow> FileSuggestion list" where
  "answer m h query currentPath =
     (if cachedData m = None then []
      else if query = [] then fst (getDirectoryContents m h currentPath)
      else filterFromCache m h query currentPath)"

definition searchBegins :: "engine \<Rightarrow> host \<Rightarrow> string \<Rightarrow> string \<Rightarrow> outcome \<times> engine" where
  "searchBegins e h query currentPath =
     (let m = core e
      in if workspaceRoot m = [] then (Returned [], e)
         else if isCacheValid m h then (Returned (answer m h query currentPath), e)
         else if cacheBuildPromise e then (Suspended, e)
         else (Suspended, e\<lparr>core := m\<lparr>builds := builds m + 1\<rparr>, cacheBuildPromise := True\<rparr>))"

definition buildSettles :: "engine \<Rightarrow> host \<Rightarrow> engine" where
  "buildSettles e h =
     e\<lparr>core := (core e)\<lparr>cachedData := rebuilt (core e) h\<rparr>, cacheBuildPromise := False\<rparr>"

definition searchResumes :: "engine \<Rightarrow> host \<Rightarrow> string \<Rightarrow> string \<Rightarrow> FileSuggestion list" where
  "searchResumes e h query currentPath = answer (core e) h query currentPath"

definition notified :: "engine \<Rightarrow> engine" where
  "notified e = e\<lparr>core := fsNotification (core e)\<rparr>"

subsection \<open>Example hosts\<close>

text \<open>\<open>path.relative\<close> on a path below the root: the root and one separator are removed.\<close>

definition stripRoot :: "string \<Rightarrow> string \<Rightarrow> string" where
  "stripRoot root p = (if startsWith p (root @ [sep]) then drop (length root + 1) p else p)"

definition exampleHost :: host where
  "exampleHost =
     \<lparr>findFiles = Inr [''/w/src/a.ts'', ''/w/src/sub/b.ts'', ''/w/readme.md''],
      readDirectory = (\<lambda>p. Inl HostError), now = 1000, relative = stripRoot,
      fileIcon = (\<lambda>nm. ''file''), localeCompare = defaultCompare\<rparr>"

text \<open>A workspace with 51 files in its root, the last one named \<open>a\<close>.\<close>

definition crowdedPaths :: "string list" where
  "crowdedPaths =
     map (\<lambda>c. ''/w/a'' @ [c]) ''0123456789bcdefghijklmnopqrstuvwxyzBCDEFGHIJKLMNOP'' @ [''/w/a'']"

definition crowdedHost :: host where
  "crowdedHost = exampleHost\<lparr>findFiles := Inr crowdedPaths\<rparr>"

text \<open>
  A collation that compares without regard to case first and puts the lower-case variant
  first on a tie, as locale-aware comparison does on ASCII letters; and a workspace with
  folders and files whose names differ in case.
\<close>

definition collateCompare :: "string \<Rightarrow> string \<Rightarrow> int" where
  "collateCompare a b =
     (let c = defaultCompare (toLowerCase a) (toLowerCase b)
      in if c \<noteq> 0 then c else defaultCompare b a)"

definition mixedCaseHost :: host where
  "mixedCaseHost =
     \<lparr>findFiles = Inr [''/w/B/x.ts'', ''/w/a/y.ts'', ''/w/B.txt'', ''/w/a.txt''],
      readDirectory =
        (\<lambda>p. if p = ''/w''
              then Inr [(''B'', True), (''a'', True), (''B.txt'', False), (''a.txt'', False)]
              else Inl HostError),
      now = 1000, relative = stripRoot,
      fileIcon = (\<lambda>nm. ''file''), localeCompare = collateCompare\<rparr>"

definition nestedHost :: host where
  "nestedHost = exampleHost\<lparr>findFiles := Inr [''/w/src/sub/b.ts'']\<rparr>"

definition exampleManager :: manager where
  "exampleManager = newManager [''/w''] True"

definition failingHost :: host where
  "failingHost = exampleHost\<lparr>findFiles := Inl HostError\<rparr>"

text \<open>
  No build in flight, and the example workspace after the file \<open>new.ts\<close> was created.
\<close>

definition idleEngine :: engine where
  "idleEngine = \<lparr>core = exampleManager, cacheBuildPromise = False\<rparr>"

definition changedHost :: host where
  "changedHost =
     exampleHost\<lparr>findFiles := Inr [''/w/src/a.ts'', ''/w/src/sub/b.ts'', ''/w/readme.md'',
                                    ''/w/new.ts''],
                  now := 2000\<rparr>"

section \<open>Properties\<close>

subsection \<open>Splitting and joining paths\<close>

lemma split_ne [simp]: "split p \<noteq> []"
  by (induction p) (auto split: list.splits)

lemma join_Cons_Cons: "ps \<noteq> [] \<Longrightarrow> join (p # ps) = p @ sep # join ps"
  by (cases ps) auto

lemma join_split: "join (split p) = p"
proof (induction p)
  case Nil
  then show ?case by simp
next
  case (Cons c s)
  obtain q qs where q: "split s = q # qs" by (cases "split s") auto
  show ?case
  proof (cases "c = sep")
    case True
    with Cons show ?thesis by (simp add: join_Cons_Cons)
  next
    case False
    with Cons q show ?thesis by (cases qs) auto
  qed
qed

lemma split_nosep: "s \<in> set (split p) \<Longrightarrow> sep \<notin> set s"
proof (induction p arbitrary: s)
  case Nil
  then show ?case by simp
next
  case (Cons c p)
  then show ?case by (auto split: if_splits list.splits)
qed

lemma split_append_sep: "sep \<notin> set p \<Longrightarrow> split (p @ sep # r) = p # split r"
  by (induction p) auto

lemma split_single: "sep \<notin> set p \<Longrightarrow> split p = [p]"
  by (induction p) auto

lemma split_join:
  "ps \<noteq> [] \<Longrightarrow> \<forall>s \<in> set ps. sep \<notin> set s \<Longrightarrow> split (join ps) = ps"
proof (induction ps rule: join.induct)
  case 1
  then show ?case by simp
next
  case (2 p)
  then show ?case by (simp add: split_single)
next
  case (3 p q ps)
  then show ?case by (simp add: split_append_sep)
qed

lemma join_snoc: "qs \<noteq> [] \<Longrightarrow> join (qs @ [l]) = join qs @ sep # l"
  by (induction qs rule: join.induct) auto

lemma join_nonempty: "qs \<noteq> [] \<Longrightarrow> hd qs \<noteq> [] \<Longrightarrow> join qs \<noteq> [] \<and> hd (join qs) = hd (hd qs)"
  by (induction qs rule: join.induct) auto

lemma parse_dir_normal:
  assumes "[] \<notin> set (split p)"
  shows "parse_dir p = join (butlast (split p))"
proof -
  define ps where "ps = split p"
  have ne: "ps \<noteq> []" by (simp add: ps_def)
  then obtain qs l where ps: "ps = qs @ [l]" by (metis rev_exhaust)
  have nosep: "\<And>s. s \<in> set ps \<Longrightarrow> sep \<notin> set s"
    unfolding ps_def by (rule split_nosep)
  have nonempty: "\<And>s. s \<in> set ps \<Longrightarrow> s \<noteq> []"
    using assms unfolding ps_def by auto
  have l: "l \<noteq> []" "sep \<notin> set l" using nosep nonempty ps by auto
  have p: "p = join ps" by (simp add: ps_def join_split)
  have hdp: "p \<noteq> [] \<and> hd p \<noteq> sep"
  proof -
    have "hd ps \<noteq> []" using nonempty ne by simp
    with ne have "join ps \<noteq> [] \<and> hd (join ps) = hd (hd ps)" by (rule join_nonempty)
    moreover have "hd (hd ps) \<noteq> sep"
      using nosep[of "hd ps"] nonempty[of "hd ps"] ne by (metis hd_in_set)
    ultimately show ?thesis using p by simp
  qed
  have keep: "dropWhile (\<lambda>x. x = sep) (rev l @ r) = rev l @ r" for r
    using l by (cases l rule: rev_cases) auto
  have strip: "dropWhile (\<lambda>x. x \<noteq> sep) (rev l @ r) = dropWhile (\<lambda>x. x \<noteq> sep) r" for r
    using l by (simp add: dropWhile_append)
  have sp: "split p = qs @ [l]" using ps by (simp add: ps_def)
  have rel: "(p \<noteq> [] \<and> hd p = sep) = False" using hdp by simp
  show ?thesis
  proof (cases "qs = []")
    case True
    with ps p have rp: "rev p = rev l" by simp
    have r: "dropWhile (\<lambda>x. x \<noteq> sep) (dropWhile (\<lambda>x. x = sep) (rev p)) = []"
      using keep[of "[]"] strip[of "[]"] by (simp add: rp)
    show ?thesis
      unfolding parse_dir_def Let_def rel if_False r sp using True by simp
  next
    case False
    with ps p have pp: "p = join qs @ sep # l" by (simp add: join_snoc)
    have rp: "rev p = rev l @ sep # rev (join qs)" by (simp add: pp)
    have r: "dropWhile (\<lambda>x. x \<noteq> sep) (dropWhile (\<lambda>x. x = sep) (rev p)) = sep # rev (join qs)"
      using keep[of "sep # rev (join qs)"] strip[of "sep # rev (join qs)"] by (simp add: rp)
    show ?thesis
      unfolding parse_dir_def Let_def rel if_False r sp by simp
  qed
qed

subsection \<open>The snapshot a build produces\<close>

lemma set_set_add [simp]: "set (set_add x xs) = insert x (set xs)"
  by (auto simp: set_add_def)

lemma set_foldl_set_add:
  "set (foldl (\<lambda>s i. set_add (g i) s) s0 is) = set s0 \<union> g ` set is"
  by (induction "is" arbitrary: s0) auto

lemma relativePath_suggestionOf [simp]:
  "relativePath (suggestionOf h root uri) = relative h root uri"
  by (simp add: suggestionOf_def Let_def)

lemma processUri_files_folders:
  assumes "processUri h root (fs, dm, af) uri = (fs', dm', af')"
  shows "fs' = fs @ [suggestionOf h root uri]"
    and "set af' = set af \<union> foldersOf (relative h root uri)"
  using assms
  by (auto simp: processUri_def Let_def foldersOf_def set_foldl_set_add split: if_splits)

lemma foldl_processUri:
  assumes "foldl (processUri h root) (fs, dm, af) uris = (fs', dm', af')"
  shows "fs' = fs @ map (suggestionOf h root) uris
       \<and> set af' = set af \<union> (\<Union>u \<in> set uris. foldersOf (relative h root u))"
  using assms
proof (induction uris arbitrary: fs dm af)
  case Nil
  then show ?case by simp
next
  case (Cons u uris)
  obtain fs1 dm1 af1 where s: "processUri h root (fs, dm, af) u = (fs1, dm1, af1)"
    by (cases "processUri h root (fs, dm, af) u") auto
  from Cons.prems s have "foldl (processUri h root) (fs1, dm1, af1) uris = (fs', dm', af')"
    by simp
  from Cons.IH [OF this] processUri_files_folders [OF s] show ?case by auto
qed

lemma dom_initFolder: "dom (initFolder dm folder) = insert folder (dom dm)"
  by (auto simp: initFolder_def split: option.splits)

lemma dom_foldl_initFolder: "dom (foldl initFolder dm af) = dom dm \<union> set af"
  by (induction af arbitrary: dm) (auto simp: dom_initFolder)

lemma buildSnapshot_files:
  "files (buildSnapshot h root uris) = map (suggestionOf h root) uris"
proof -
  obtain fs dm af where f: "foldl (processUri h root) ([], Map.empty, []) uris = (fs, dm, af)"
    by (cases "foldl (processUri h root) ([], Map.empty, []) uris") auto
  from foldl_processUri [OF f] f show ?thesis by (simp add: buildSnapshot_def)
qed

lemma buildSnapshot_folders:
  assumes "u \<in> set uris"
  shows "foldersOf (relative h root u) \<subseteq> dom (directoryMap (buildSnapshot h root uris))"
proof -
  obtain fs dm af where f: "foldl (processUri h root) ([], Map.empty, []) uris = (fs, dm, af)"
    by (cases "foldl (processUri h root) ([], Map.empty, []) uris") auto
  from foldl_processUri [OF f] assms have "foldersOf (relative h root u) \<subseteq> set af" by auto
  with f show ?thesis by (auto simp: buildSnapshot_def dom_foldl_initFolder)
qed

lemma ancestor_in_foldersOf:
  assumes "[] \<notin> set (split rel)" and "p \<in> set (ancestorDirs rel)"
  shows "p \<in> foldersOf rel"
proof -
  define ps where "ps = split rel"
  from assms(2) obtain k where k: "1 \<le> k" "k < length ps" and p: "p = join (take k ps)"
    by (auto simp: ancestorDirs_def ps_def)
  define qs where "qs = butlast ps"
  have len: "length qs = length ps - 1" by (simp add: qs_def)
  with k have qne: "qs \<noteq> []" by auto
  have nosep: "\<forall>s \<in> set qs. sep \<notin> set s"
    using split_nosep[of _ rel] in_set_butlastD[of _ ps] unfolding qs_def ps_def by blast
  have nonempty: "hd qs \<noteq> []"
    using assms(1) qne in_set_butlastD[of "hd qs" ps] hd_in_set[of qs] unfolding qs_def ps_def by metis
  have dir: "parse_dir rel = join qs"
    using parse_dir_normal [OF assms(1)] by (simp add: qs_def ps_def)
  have dne: "join qs \<noteq> []" using join_nonempty [OF qne nonempty] by simp
  have sd: "split (join qs) = qs" using split_join [OF qne nosep] .
  have tk: "take k ps = take ((k - 1) + 1) qs"
    using k by (simp add: qs_def take_butlast)
  have "k - 1 < length (split (join qs))" using k len sd by simp
  then have "join (take ((k - 1) + 1) (split (join qs))) \<in> foldersOf rel"
    using dne unfolding foldersOf_def Let_def dir by auto
  then show ?thesis by (simp add: p tk sd)
qed

subsection \<open>Sorting with a comparator\<close>

lemma set_insertBy: "set (insertBy cmp x xs) = insert x (set xs)"
  by (induction xs) auto

lemma length_insertBy: "length (insertBy cmp x xs) = Suc (length xs)"
  by (induction xs) auto

lemma length_sortBy: "length (sortBy cmp xs) = length xs"
  by (induction xs) (auto simp: length_insertBy)


lemma sorted_insertBy:
  assumes "consistentComparator cmp" and "sorted_wrt (\<lambda>a b. cmp a b \<le> 0) xs"
  shows "sorted_wrt (\<lambda>a b. cmp a b \<le> 0) (insertBy cmp x xs)"
  using assms(2)
proof (induction xs)
  case Nil
  then show ?case by simp
next
  case (Cons y ys)
  from assms(1) have total: "\<And>a b. cmp a b \<le> 0 \<or> cmp b a \<le> 0"
    and trans: "\<And>a b c. cmp a b \<le> 0 \<Longrightarrow> cmp b c \<le> 0 \<Longrightarrow> cmp a c \<le> 0"
    unfolding consistentComparator_def by blast+
  show ?case
  proof (cases "cmp x y \<le> 0")
    case True
    with Cons.prems trans show ?thesis by auto
  next
    case False
    with total have "cmp y x \<le> 0" by blast
    with False Cons show ?thesis by (auto simp: set_insertBy)
  qed
qed

lemma sorted_sortBy:
  "consistentComparator cmp \<Longrightarrow> sorted_wrt (\<lambda>a b. cmp a b \<le> 0) (sortBy cmp xs)"
  by (induction xs) (auto intro: sorted_insertBy)

lemma tied_insertBy:
  assumes "consistentComparator cmp"
  shows "filter (tied cmp y) (insertBy cmp x xs) =
           (if tied cmp y x then x # filter (tied cmp y) xs else filter (tied cmp y) xs)"
proof (induction xs)
  case Nil
  then show ?case by simp
next
  case (Cons z zs)
  from assms have total: "\<And>a b. cmp a b \<le> 0 \<or> cmp b a \<le> 0"
    and trans: "\<And>a b c. cmp a b \<le> 0 \<Longrightarrow> cmp b c \<le> 0 \<Longrightarrow> cmp a c \<le> 0"
    unfolding consistentComparator_def by blast+
  show ?case
  proof (cases "cmp x z \<le> 0")
    case True
    then show ?thesis by simp
  next
    case False
    have "\<not> (tied cmp y x \<and> tied cmp y z)"
      using False trans unfolding tied_def by blast
    with False Cons.IH show ?thesis by auto
  qed
qed

lemma tied_sortBy:
  "consistentComparator cmp \<Longrightarrow> filter (tied cmp y) (sortBy cmp xs) = filter (tied cmp y) xs"
  by (induction xs) (auto simp: tied_insertBy)

lemma defaultCompare_total: "defaultCompare a b \<le> 0 \<or> defaultCompare b a \<le> 0"
  by (induction a b rule: defaultCompare.induct) auto

lemma defaultCompare_Cons_le:
  "defaultCompare (x # s) (y # t) \<le> 0 \<longleftrightarrow>
     (of_char x :: nat) < of_char y \<or> ((of_char x :: nat) = of_char y \<and> defaultCompare s t \<le> 0)"
  by auto

lemma defaultCompare_trans:
  "defaultCompare a b \<le> 0 \<Longrightarrow> defaultCompare b c \<le> 0 \<Longrightarrow> defaultCompare a c \<le> 0"
proof (induction a arbitrary: b c)
  case Nil
  then show ?case by (cases c) auto
next
  case (Cons x s)
  from Cons.prems(1) obtain y t where b: "b = y # t" by (cases b) auto
  from Cons.prems(2) b obtain z u where c: "c = z # u" by (cases c) auto
  from Cons.prems have 1: "(of_char x :: nat) < of_char y \<or> ((of_char x :: nat) = of_char y \<and> defaultCompare s t \<le> 0)"
    and 2: "(of_char y :: nat) < of_char z \<or> ((of_char y :: nat) = of_char z \<and> defaultCompare t u \<le> 0)"
    unfolding b c defaultCompare_Cons_le by blast+
  from 1 2 Cons.IH[of t u]
  have "(of_char x :: nat) < of_char z \<or> ((of_char x :: nat) = of_char z \<and> defaultCompare s u \<le> 0)"
    by (metis less_trans)
  then show ?case unfolding c defaultCompare_Cons_le .
qed

lemma consistent_defaultCompare: "consistentComparator defaultCompare"
  unfolding consistentComparator_def
  using defaultCompare_total defaultCompare_trans by blast

subsection \<open>The ranking of search results\<close>

lemma consistent_rankCompare:
  assumes "consistentComparator (localeCompare h)"
  shows "consistentComparator (rankCompare h lq)"
proof -
  from assms have total: "\<And>a b. localeCompare h a b \<le> 0 \<or> localeCompare h b a \<le> 0"
    and trans: "\<And>a b c. localeCompare h a b \<le> 0 \<Longrightarrow> localeCompare h b c \<le> 0 \<Longrightarrow> localeCompare h a c \<le> 0"
    unfolding consistentComparator_def by blast+
  have t: "rankCompare h lq a b \<le> 0 \<or> rankCompare h lq b a \<le> 0" for a b
    using total[of "name a" "name b"]
    by (cases "type a"; cases "type b") (auto simp: rankCompare_def Let_def)
  have tr: "rankCompare h lq a c \<le> 0" if "rankCompare h lq a b \<le> 0" "rankCompare h lq b c \<le> 0" for a b c
    using that trans[of "name a" "name b" "name c"]
    by (cases "type a"; cases "type b"; cases "type c")
       (auto simp: rankCompare_def Let_def split: if_splits)
  show ?thesis unfolding consistentComparator_def using t tr by blast
qed

lemma rankCompare_le:
  assumes "rankCompare h lq a b \<le> 0"
  shows "(toLowerCase (name b) = lq \<longrightarrow> toLowerCase (name a) = lq)
     \<and> ((toLowerCase (name a) = lq) = (toLowerCase (name b) = lq)
          \<longrightarrow> type b = Folder \<longrightarrow> type a = Folder)
     \<and> ((toLowerCase (name a) = lq) = (toLowerCase (name b) = lq)
          \<longrightarrow> type a = type b \<longrightarrow> localeCompare h (name a) (name b) \<le> 0)"
  using assms by (cases "type a"; cases "type b") (auto simp: rankCompare_def Let_def split: if_splits)

subsection \<open>What a call of search leaves and returns\<close>

lemma snd_search:
  "snd (search m h q p) = (if workspaceRoot m = [] then m else ensureCache m h)"
proof -
  have v: "ensureCache (ensureCache m h) h = ensureCache m h"
    if "cachedData (ensureCache m h) \<noteq> None"
    using that
    by (auto simp: ensureCache_def isCacheValid_def buildCache_def buildSnapshot_def CACHE_TTL_def
          split: option.splits sum.splits prod.splits if_splits)
  show ?thesis
    using v by (auto simp: search_def getDirectoryContents_def Let_def split: option.splits)
qed

lemma fst_search_query:
  "q \<noteq> [] \<Longrightarrow> fst (search m h q p) =
     (if workspaceRoot m = [] then [] else filterFromCache (ensureCache m h) h q p)"
  by (auto simp: search_def Let_def filterFromCache_def)

lemma sorted_filterFromCache:
  "consistentComparator (localeCompare h) \<Longrightarrow>
   sorted_wrt (\<lambda>a b. rankCompare h (toLowerCase q) a b \<le> 0) (filterFromCache m h q p)"
  by (auto simp: filterFromCache_def sorted_wrt_take sorted_sortBy consistent_rankCompare
        split: option.splits)

subsection \<open>The two loops of the search and their stops\<close>

lemma fst_pushFile: "fst (pushFile f acc) = fst acc \<or> fst (pushFile f acc) = fst acc @ [f]"
  by (cases acc) (auto simp: pushFile_def)

lemma fst_fileStep:
  "fst (fileStep lq cur acc f) = fst acc \<or> fst (fileStep lq cur acc f) = fst acc @ [f]"
  using fst_pushFile [of f acc] by (auto simp: fileStep_def matchFile_def)

lemma prefix_fileStep: "prefix (fst acc) (fst (foldl (fileStep lq cur) acc fs))"
proof (induction fs arbitrary: acc)
  case Nil
  then show ?case by simp
next
  case (Cons f fs)
  have "prefix (fst acc) (fst (fileStep lq cur acc f))"
    using fst_fileStep [of lq cur acc f] by auto
  with Cons [of "fileStep lq cur acc f"] show ?case
    by (auto intro: prefix_order.trans)
qed

lemma scanFiles_capped:
  assumes "length (fst acc) < MAX_RESULTS"
  shows "fst (scanFiles lq cur fs acc) = take MAX_RESULTS (fst (foldl (fileStep lq cur) acc fs))"
  using assms
proof (induction fs arbitrary: acc)
  case Nil
  then show ?case by simp
next
  case (Cons f fs)
  show ?case
  proof (cases "inScope cur f")
    case False
    with Cons show ?thesis by (simp add: fileStep_def)
  next
    case True
    define acc1 where "acc1 = matchFile lq f acc"
    have step: "fileStep lq cur acc f = acc1" using True by (simp add: fileStep_def acc1_def)
    have len: "length (fst acc1) \<le> Suc (length (fst acc))"
      using fst_fileStep [of lq cur acc f] unfolding step by auto
    show ?thesis
    proof (cases "MAX_RESULTS \<le> length (fst acc1)")
      case full: True
      with len Cons.prems have l: "length (fst acc1) = MAX_RESULTS" by simp
      have "prefix (fst acc1) (fst (foldl (fileStep lq cur) acc1 fs))"
        by (rule prefix_fileStep)
      then obtain zs where "fst (foldl (fileStep lq cur) acc1 fs) = fst acc1 @ zs"
        by (auto simp: prefix_def)
      with l full True show ?thesis
        by (simp add: step acc1_def [symmetric] Let_def)
    next
      case False
      then have "length (fst acc1) < MAX_RESULTS" by simp
      from Cons.IH [OF this] False True show ?thesis
        by (simp add: step acc1_def [symmetric] Let_def)
    qed
  qed
qed

lemma pushFolder_shift:
  "pushFolder m d lq parts (rs, seen) i =
     (rs @ fst (pushFolder m d lq parts ([], seen) i), snd (pushFolder m d lq parts ([], seen) i))"
  by (simp add: pushFolder_def Let_def)

lemma foldl_pushFolder_shift:
  "foldl (pushFolder m d lq parts) (rs, seen) is =
     (rs @ fst (foldl (pushFolder m d lq parts) ([], seen) is),
      snd (foldl (pushFolder m d lq parts) ([], seen) is))"
proof (induction "is" arbitrary: rs seen)
  case Nil
  then show ?case by simp
next
  case (Cons i "is")
  obtain r1 s1 where p: "pushFolder m d lq parts ([], seen) i = (r1, s1)"
    by (cases "pushFolder m d lq parts ([], seen) i") auto
  have q: "pushFolder m d lq parts (rs, seen) i = (rs @ r1, s1)"
    using pushFolder_shift [of m d lq parts rs seen i] p by simp
  show ?case
    using Cons [of "rs @ r1" s1] Cons [of r1 s1] by (simp add: p q)
qed

lemma folderStep_shift:
  "folderStep m d lq cur (rs, seen) f =
     (rs @ fst (folderStep m d lq cur ([], seen) f), snd (folderStep m d lq cur ([], seen) f))"
  using foldl_pushFolder_shift [of m d lq "split (relativePath f)" rs seen]
  by (simp add: folderStep_def)

lemma foldl_folderStep_shift:
  "foldl (folderStep m d lq cur) (rs, seen) fs =
     (rs @ fst (foldl (folderStep m d lq cur) ([], seen) fs),
      snd (foldl (folderStep m d lq cur) ([], seen) fs))"
proof (induction fs arbitrary: rs seen)
  case Nil
  then show ?case by simp
next
  case (Cons f fs)
  obtain r1 s1 where p: "folderStep m d lq cur ([], seen) f = (r1, s1)"
    by (cases "folderStep m d lq cur ([], seen) f") auto
  have q: "folderStep m d lq cur (rs, seen) f = (rs @ r1, s1)"
    using folderStep_shift [of m d lq cur rs seen f] p by simp
  show ?case
    using Cons [of "rs @ r1" s1] Cons [of r1 s1] by (simp add: p q)
qed






lemma scanFolders_step:
  "\<not> MAX_RESULTS \<le> length (fst acc) \<Longrightarrow>
     scanFolders m d lq cur (f # fs) acc = scanFolders m d lq cur fs (folderStep m d lq cur acc f)"
  by (simp add: folderStep_def Let_def)

lemma scanFolders_stop:
  "\<exists>k \<le> length fs.
      scanFolders m d lq cur fs acc = foldl (folderStep m d lq cur) acc (take k fs)
    \<and> (\<forall>j < k. length (fst (foldl (folderStep m d lq cur) acc (take j fs))) < MAX_RESULTS)
    \<and> (k < length fs \<longrightarrow>
          MAX_RESULTS \<le> length (fst (foldl (folderStep m d lq cur) acc (take k fs))))"
proof (induction fs arbitrary: acc)
  case Nil
  then show ?case by simp
next
  case (Cons f fs)
  show ?case
  proof (cases "MAX_RESULTS \<le> length (fst acc)")
    case True
    then have "scanFolders m d lq cur (f # fs) acc = foldl (folderStep m d lq cur) acc (take 0 (f # fs))"
      by simp
    with True show ?thesis by (intro exI [of _ 0]) simp
  next
    case False
    define acc1 where "acc1 = folderStep m d lq cur acc f"
    from Cons.IH [of acc1] obtain k where k: "k \<le> length fs"
      and run: "scanFolders m d lq cur fs acc1 = foldl (folderStep m d lq cur) acc1 (take k fs)"
      and before: "\<forall>j < k. length (fst (foldl (folderStep m d lq cur) acc1 (take j fs))) < MAX_RESULTS"
      and stop: "k < length fs \<longrightarrow>
          MAX_RESULTS \<le> length (fst (foldl (folderStep m d lq cur) acc1 (take k fs)))"
      by blast
    have s: "scanFolders m d lq cur (f # fs) acc = scanFolders m d lq cur fs acc1"
      using False unfolding acc1_def by (rule scanFolders_step)
    have t: "foldl (folderStep m d lq cur) acc (take (Suc j) (f # fs))
               = foldl (folderStep m d lq cur) acc1 (take j fs)" for j
      by (simp add: acc1_def)
    have b: "length (fst (foldl (folderStep m d lq cur) acc (take j (f # fs)))) < MAX_RESULTS"
      if "j < Suc k" for j
    proof (cases j)
      case 0
      with False show ?thesis by simp
    next
      case (Suc j')
      with that before show ?thesis unfolding Suc t by simp
    qed
    show ?thesis
    proof (intro exI [of _ "Suc k"] conjI allI impI)
      show "Suc k \<le> length (f # fs)" using k by simp
      show "scanFolders m d lq cur (f # fs) acc
              = foldl (folderStep m d lq cur) acc (take (Suc k) (f # fs))"
        unfolding s t by (rule run)
      show "length (fst (foldl (folderStep m d lq cur) acc (take j (f # fs)))) < MAX_RESULTS"
        if "j < Suc k" for j using that by (rule b)
      show "MAX_RESULTS \<le> length (fst (foldl (folderStep m d lq cur) acc (take (Suc k) (f # fs))))"
        if "Suc k < length (f # fs)" using that stop unfolding t by simp
    qed
  qed
qed

lemma collect_stop:
  "\<exists>k \<le> length (files d).
      collect m d lq cur
        = take MAX_RESULTS (matchedFiles d lq cur) @ matchedFoldersUpTo m d lq cur k
    \<and> (\<forall>j < k. length (take MAX_RESULTS (matchedFiles d lq cur) @ matchedFoldersUpTo m d lq cur j)
                  < MAX_RESULTS)
    \<and> (k < length (files d) \<longrightarrow>
          MAX_RESULTS \<le> length (take MAX_RESULTS (matchedFiles d lq cur)
                              @ matchedFoldersUpTo m d lq cur k))"
proof -
  define F where "F = fst (scanFiles lq cur (files d) ([], []))"
  have F: "F = take MAX_RESULTS (matchedFiles d lq cur)"
    unfolding F_def matchedFiles_def by (rule scanFiles_capped) (simp add: MAX_RESULTS_def)
  have c: "collect m d lq cur = fst (scanFolders m d lq cur (files d) (F, []))"
    by (simp add: collect_def F_def)
  have u: "fst (foldl (folderStep m d lq cur) (F, []) (take j (files d)))
             = F @ matchedFoldersUpTo m d lq cur j" for j
    using foldl_folderStep_shift [of m d lq cur F "[]" "take j (files d)"]
    by (simp add: matchedFoldersUpTo_def)
  from scanFolders_stop [of "files d" m d lq cur "(F, [])"] obtain k
    where k: "k \<le> length (files d)"
      and run: "scanFolders m d lq cur (files d) (F, [])
                  = foldl (folderStep m d lq cur) (F, []) (take k (files d))"
      and before: "\<forall>j < k. length (F @ matchedFoldersUpTo m d lq cur j) < MAX_RESULTS"
      and stop: "k < length (files d) \<longrightarrow>
                   MAX_RESULTS \<le> length (F @ matchedFoldersUpTo m d lq cur k)"
    unfolding u by blast
  have "collect m d lq cur = F @ matchedFoldersUpTo m d lq cur k"
    unfolding c run u ..
  with k before stop show ?thesis unfolding F [symmetric] by blast
qed

lemma crowded_snapshot:
  "cachedData (snd (search exampleManager crowdedHost ''a'' []))
     = Some (buildSnapshot crowdedHost ''/w'' crowdedPaths)"
  by (simp add: snd_search exampleManager_def newManager_def setupFileSystemWatcher_def
        firstFolder_def ensureCache_def isCacheValid_def buildCache_def crowdedHost_def exampleHost_def)

lemma crowded_matched:
  "length (matchedFiles (buildSnapshot crowdedHost ''/w'' crowdedPaths) ''a'' []) = 51"
  by code_simp

subsection \<open>What a search can return\<close>









subsection \<open>Listing a directory\<close>





lemma set_foldl_relativePath:
  "set (foldl (\<lambda>s f. set_add (relativePath f) s) s0 l) = set s0 \<union> relativePath ` set l"
  by (induction l arbitrary: s0) auto















subsection \<open>A search as events\<close>

lemma getDirectoryContents_state:
  "isCacheValid m h \<Longrightarrow> snd (getDirectoryContents m h cur) = m"
  by (auto simp: getDirectoryContents_def ensureCache_def Let_def split: option.splits)

lemma search_valid:
  assumes "workspaceRoot m = [] \<or> isCacheValid m h"
  shows "search m h q c = (if workspaceRoot m = [] then [] else answer m h q c, m)"
proof (cases "workspaceRoot m = []")
  case True
  then show ?thesis by (simp add: search_def)
next
  case False
  with assms have v: "isCacheValid m h" by simp
  then have e: "ensureCache m h = m" by (simp add: ensureCache_def)
  from v have ne: "cachedData m \<noteq> None" by (auto simp: isCacheValid_def split: option.splits)
  show ?thesis
    using False ne getDirectoryContents_state [OF v, of c]
    by (auto simp: search_def e answer_def Let_def prod_eq_iff)
qed

lemma search_as_events:
  assumes "\<not> cacheBuildPromise e"
  shows "(workspaceRoot (core e) = [] \<or> isCacheValid (core e) h \<longrightarrow>
            searchBegins e h q c = (Returned (fst (search (core e) h q c)), e)
            \<and> snd (search (core e) h q c) = core e)
       \<and> (workspaceRoot (core e) \<noteq> [] \<and> \<not> isCacheValid (core e) h \<longrightarrow>
            fst (searchBegins e h q c) = Suspended
            \<and> core (buildSettles (snd (searchBegins e h q c)) h) = snd (search (core e) h q c)
            \<and> searchResumes (buildSettles (snd (searchBegins e h q c)) h) h q c
                 = fst (search (core e) h q c))"
proof (intro conjI impI)
  assume a: "workspaceRoot (core e) = [] \<or> isCacheValid (core e) h"
  from search_valid [OF a, of q c]
  show "searchBegins e h q c = (Returned (fst (search (core e) h q c)), e)"
    using a by (auto simp: searchBegins_def Let_def)
  from search_valid [OF a, of q c] show "snd (search (core e) h q c) = core e" by simp
next
  assume a: "workspaceRoot (core e) \<noteq> [] \<and> \<not> isCacheValid (core e) h"
  define m where "m = core e"
  have b: "buildCache m h = m\<lparr>cachedData := rebuilt m h, builds := builds m + 1\<rparr>"
    using a by (simp add: buildCache_def rebuilt_def m_def split: sum.splits)
  have en: "ensureCache m h = buildCache m h" using a by (simp add: ensureCache_def m_def)
  have s: "snd (searchBegins e h q c)
             = e\<lparr>core := m\<lparr>builds := builds m + 1\<rparr>, cacheBuildPromise := True\<rparr>"
    using a assms by (simp add: searchBegins_def Let_def m_def)
  show "fst (searchBegins e h q c) = Suspended"
    using a assms by (simp add: searchBegins_def Let_def)
  have c: "core (buildSettles (snd (searchBegins e h q c)) h) = buildCache m h"
    unfolding s b by (simp add: buildSettles_def rebuilt_def split: sum.splits)
  show "core (buildSettles (snd (searchBegins e h q c)) h) = snd (search (core e) h q c)"
    using a c en by (simp add: snd_search m_def)
  have root: "workspaceRoot m \<noteq> []" using a by (simp add: m_def)
  show "searchResumes (buildSettles (snd (searchBegins e h q c)) h) h q c
          = fst (search (core e) h q c)"
    unfolding searchResumes_def c
    using root en by (simp add: search_def answer_def Let_def m_def)
qed

lemma notified_search_rebuilds:
  assumes "fileSystemWatcher (core e)" and "workspaceRoot (core e) \<noteq> []"
    and "\<not> cacheBuildPromise e"
  shows "fst (searchBegins (notified e) h q c) = Suspended
       \<and> builds (core (snd (searchBegins (notified e) h q c))) = builds (core e) + 1"
  using assms
  by (simp add: searchBegins_def notified_def fsNotification_def invalidateCacheQuietly_def
        isCacheValid_def Let_def)

subsection \<open>The claims\<close>

text \<open>
  C1 does not hold: with 51 matching files, the last of them an exact match of the query,
  there are more than 50 candidates and the list returned is not the first 50 of them
  under the ranking.
\<close>

theorem ranked_top_counterexample:
  "50 < length (candidates exampleManager (buildSnapshot crowdedHost ''/w'' crowdedPaths) ''a'' [])
   \<and> fst (search exampleManager crowdedHost ''a'' [])
     \<noteq> rankedTop exampleManager crowdedHost (buildSnapshot crowdedHost ''/w'' crowdedPaths) ''a'' []"
proof -
  have many: "50 < length (candidates exampleManager (buildSnapshot crowdedHost ''/w'' crowdedPaths) ''a'' [])"
    by (simp add: candidates_def crowded_matched)
  have differ: "fst (search exampleManager crowdedHost ''a'' [])
     \<noteq> rankedTop exampleManager crowdedHost (buildSnapshot crowdedHost ''/w'' crowdedPaths) ''a'' []"
    by code_simp
  from many differ show ?thesis by (rule conjI)
qed

text \<open>
  C1, as the code has it: for a non-empty query, search returns the first 50, under the
  ranking, of what its scan collected, and the scan stops at the maximum before the
  ranking. What it collected is the first 50 matching files of the cache order (all of
  them when fewer match) followed by the matching folders that the first \<open>k\<close> files of
  the cache give, where \<open>k\<close> is where the folder loop stops: before each of these files
  fewer than 50 entries were collected, and if files are left then 50 or more are
  collected. When at least 50 files match, the result is the first 50 matching files of
  the cache order, ranked, and no folder.
\<close>

theorem search_ranks_scan_prefix:
  assumes "query \<noteq> []" and "workspaceRoot m \<noteq> []"
    and "cachedData (snd (search m h query currentPath)) = Some d"
  shows "\<exists>k \<le> length (files d).
           (let m' = snd (search m h query currentPath);
                lq = toLowerCase query;
                firstFiles = take MAX_RESULTS (matchedFiles d lq currentPath)
            in fst (search m h query currentPath)
                 = take MAX_RESULTS (sortBy (rankCompare h lq)
                     (firstFiles @ matchedFoldersUpTo m' d lq currentPath k))
             \<and> (\<forall>j < k. length (firstFiles @ matchedFoldersUpTo m' d lq currentPath j) < MAX_RESULTS)
             \<and> (k < length (files d) \<longrightarrow>
                   MAX_RESULTS \<le> length (firstFiles @ matchedFoldersUpTo m' d lq currentPath k))
             \<and> (MAX_RESULTS \<le> length (matchedFiles d lq currentPath) \<longrightarrow>
                   fst (search m h query currentPath) = sortBy (rankCompare h lq) firstFiles))"
proof -
  define m' where "m' = snd (search m h query currentPath)"
  define lq where "lq = toLowerCase query"
  define firstFiles where "firstFiles = take MAX_RESULTS (matchedFiles d lq currentPath)"
  have m': "m' = ensureCache m h" using assms(2) by (simp add: m'_def snd_search)
  have d: "cachedData (ensureCache m h) = Some d" using assms(3) m' by (simp add: m'_def)
  have r: "fst (search m h query currentPath)
             = take MAX_RESULTS (sortBy (rankCompare h lq) (collect m' d lq currentPath))"
    using assms(1,2) d by (simp add: fst_search_query filterFromCache_def m' lq_def)
  from collect_stop [of d m' lq currentPath] obtain k where k: "k \<le> length (files d)"
    and c: "collect m' d lq currentPath = firstFiles @ matchedFoldersUpTo m' d lq currentPath k"
    and before: "\<forall>j < k. length (firstFiles @ matchedFoldersUpTo m' d lq currentPath j) < MAX_RESULTS"
    and stop: "k < length (files d) \<longrightarrow>
                 MAX_RESULTS \<le> length (firstFiles @ matchedFoldersUpTo m' d lq currentPath k)"
    unfolding firstFiles_def by blast
  have top: "fst (search m h query currentPath) = sortBy (rankCompare h lq) firstFiles"
    if full: "MAX_RESULTS \<le> length (matchedFiles d lq currentPath)"
  proof -
    have l: "length firstFiles = MAX_RESULTS" using full by (simp add: firstFiles_def)
    have "k = 0"
    proof (rule ccontr)
      assume "k \<noteq> 0"
      then have "0 < k" by simp
      with before have "length (firstFiles @ matchedFoldersUpTo m' d lq currentPath 0) < MAX_RESULTS"
        by blast
      with l show False by simp
    qed
    then have "collect m' d lq currentPath = firstFiles"
      by (simp add: c matchedFoldersUpTo_def)
    with l show ?thesis by (simp add: r length_sortBy)
  qed
  show ?thesis
    unfolding Let_def m'_def [symmetric] lq_def [symmetric] firstFiles_def [symmetric]
    using k r c before stop top by (intro exI [of _ k]) simp
qed

theorem search_ranks_scan_prefix_witness:
  "''a'' \<noteq> [] \<and> workspaceRoot exampleManager \<noteq> []
   \<and> cachedData (snd (search exampleManager crowdedHost ''a'' []))
        = Some (buildSnapshot crowdedHost ''/w'' crowdedPaths)
   \<and> MAX_RESULTS \<le> length (matchedFiles (buildSnapshot crowdedHost ''/w'' crowdedPaths) ''a'' [])
   \<and> fst (search exampleManager crowdedHost ''a'' [])
        = sortBy (rankCompare crowdedHost ''a'')
            (take MAX_RESULTS (matchedFiles (buildSnapshot crowdedHost ''/w'' crowdedPaths) ''a'' []))"
proof -
  have q: "''a'' \<noteq> []" by simp
  have root: "workspaceRoot exampleManager \<noteq> []"
    by (simp add: exampleManager_def newManager_def setupFileSystemWatcher_def firstFolder_def)
  have low: "toLowerCase ''a'' = ''a''" by code_simp
  have n: "MAX_RESULTS \<le> length (matchedFiles (buildSnapshot crowdedHost ''/w'' crowdedPaths) ''a'' [])"
    by (simp add: crowded_matched MAX_RESULTS_def)
  from search_ranks_scan_prefix [OF q root crowded_snapshot] n
  have "fst (search exampleManager crowdedHost ''a'' [])
        = sortBy (rankCompare crowdedHost ''a'')
            (take MAX_RESULTS (matchedFiles (buildSnapshot crowdedHost ''/w'' crowdedPaths) ''a'' []))"
    unfolding Let_def low by blast
  with q root crowded_snapshot n show ?thesis by blast
qed

text \<open>
  C2 does not hold for browsing: a directory with 51 files is listed with 51 entries.
\<close>

theorem browse_exceeds_max_counterexample:
  "\<not> length (fst (search exampleManager crowdedHost [] [])) \<le> 50"
  by code_simp

text \<open>
  C2, as the code has it: for a non-empty query the list returned by search has at most
  50 entries. (Nothing is said of browsing, the empty query.)
\<close>

theorem search_query_at_most_max:
  assumes "query \<noteq> []"
  shows "length (fst (search m h query currentPath)) \<le> 50"
  using assms by (simp add: fst_search_query filterFromCache_def MAX_RESULTS_def split: option.splits)

theorem search_query_at_most_max_witness:
  "''src'' \<noteq> [] \<and> length (fst (search exampleManager exampleHost ''src'' [])) \<le> 50"
  using search_query_at_most_max [of "''src''" exampleManager exampleHost "[]"] by simp

text \<open>
  C3: in the snapshot a successful build produces, for every file entry whose relative
  path is normalised (no empty segment, as \<open>path.relative\<close> returns it), every ancestor
  directory of that path is a key of the directory index.
\<close>

theorem build_indexes_ancestors:
  assumes "f \<in> set (files (buildSnapshot h root uris))"
    and "[] \<notin> set (split (relativePath f))"
    and "p \<in> set (ancestorDirs (relativePath f))"
  shows "p \<in> dom (directoryMap (buildSnapshot h root uris))"
proof -
  from assms(1) obtain u where u: "u \<in> set uris" and f: "f = suggestionOf h root u"
    by (auto simp: buildSnapshot_files)
  from assms(2,3) have "p \<in> foldersOf (relative h root u)"
    unfolding f relativePath_suggestionOf by (rule ancestor_in_foldersOf)
  with buildSnapshot_folders [OF u] show ?thesis by blast
qed

theorem build_indexes_ancestors_witness:
  "suggestionOf exampleHost ''/w'' ''/w/src/sub/b.ts''
     \<in> set (files (buildSnapshot exampleHost ''/w'' [''/w/src/sub/b.ts'', ''/w/readme.md'']))
   \<and> [] \<notin> set (split (relativePath (suggestionOf exampleHost ''/w'' ''/w/src/sub/b.ts'')))
   \<and> ''src'' \<in> set (ancestorDirs (relativePath (suggestionOf exampleHost ''/w'' ''/w/src/sub/b.ts'')))
   \<and> ''src'' \<in> dom (directoryMap (buildSnapshot exampleHost ''/w'' [''/w/src/sub/b.ts'', ''/w/readme.md'']))"
proof -
  have 1: "suggestionOf exampleHost ''/w'' ''/w/src/sub/b.ts''
     \<in> set (files (buildSnapshot exampleHost ''/w'' [''/w/src/sub/b.ts'', ''/w/readme.md'']))"
    by (simp add: buildSnapshot_files)
  have r: "relativePath (suggestionOf exampleHost ''/w'' ''/w/src/sub/b.ts'') = ''src/sub/b.ts''"
    by (simp add: exampleHost_def stripRoot_def startsWith_def sep_def)
  have s: "split ''src/sub/b.ts'' = [''src'', ''sub'', ''b.ts'']"
    by (simp add: sep_def)
  have 2: "[] \<notin> set (split (relativePath (suggestionOf exampleHost ''/w'' ''/w/src/sub/b.ts'')))"
    unfolding r s by simp
  have 3: "''src'' \<in> set (ancestorDirs (relativePath (suggestionOf exampleHost ''/w'' ''/w/src/sub/b.ts'')))"
    unfolding r ancestorDirs_def s by (simp add: upt_rec)
  from build_indexes_ancestors [OF 1 2 3] 1 2 3 show ?thesis by simp
qed



text \<open>
  C5: for a non-empty query and a consistent \<open>localeCompare\<close>, of two results the earlier
  one is an exact match of the name whenever the later one is; among results of the same
  exactness a folder is never after a file; among results of the same exactness and kind
  the names ascend under \<open>localeCompare\<close>; and the sort is stable: results that tie keep
  the order in which they were collected.
\<close>

theorem search_ranking:
  assumes "consistentComparator (localeCompare h)" and "query \<noteq> []"
    and "i < j" and "j < length (fst (search m h query currentPath))"
  shows "let r = fst (search m h query currentPath);
             exact = (\<lambda>f. toLowerCase (name f) = toLowerCase query)
         in (exact (r ! j) \<longrightarrow> exact (r ! i))
          \<and> (exact (r ! i) = exact (r ! j) \<longrightarrow> type (r ! j) = Folder \<longrightarrow> type (r ! i) = Folder)
          \<and> (exact (r ! i) = exact (r ! j) \<longrightarrow> type (r ! i) = type (r ! j)
               \<longrightarrow> localeCompare h (name (r ! i)) (name (r ! j)) \<le> 0)
          \<and> (\<forall>d x. cachedData (snd (search m h query currentPath)) = Some d \<longrightarrow>
                prefix (filter (tied (rankCompare h (toLowerCase query)) x) r)
                  (filter (tied (rankCompare h (toLowerCase query)) x)
                     (collect (snd (search m h query currentPath)) d (toLowerCase query) currentPath)))"
proof -
  define r where "r = fst (search m h query currentPath)"
  define lq where "lq = toLowerCase query"
  have root: "workspaceRoot m \<noteq> []"
    using assms(2,4) by (auto simp: fst_search_query)
  have r: "r = filterFromCache (ensureCache m h) h query currentPath"
    using assms(2) root by (simp add: r_def fst_search_query)
  have "sorted_wrt (\<lambda>a b. rankCompare h lq a b \<le> 0) r"
    unfolding r lq_def using assms(1) by (rule sorted_filterFromCache)
  then have "rankCompare h lq (r ! i) (r ! j) \<le> 0"
    using assms(3,4) by (simp add: r_def sorted_wrt_iff_nth_less)
  note le = rankCompare_le [OF this]
  have st: "prefix (filter (tied (rankCompare h lq) x) r)
             (filter (tied (rankCompare h lq) x) (collect (snd (search m h query currentPath)) d lq currentPath))"
    if "cachedData (snd (search m h query currentPath)) = Some d" for d x
  proof -
    from that root have d: "cachedData (ensureCache m h) = Some d"
      by (simp add: snd_search)
    have "r = take MAX_RESULTS (sortBy (rankCompare h lq) (collect (ensureCache m h) d lq currentPath))"
      using d by (simp add: r filterFromCache_def lq_def)
    then have "prefix (filter (tied (rankCompare h lq) x) r)
       (filter (tied (rankCompare h lq) x) (sortBy (rankCompare h lq) (collect (ensureCache m h) d lq currentPath)))"
      by (simp add: filter_mono_prefix take_is_prefix)
    then show ?thesis
      using assms(1) root by (simp add: tied_sortBy consistent_rankCompare snd_search)
  qed
  from le st show ?thesis
    unfolding r_def lq_def Let_def by (intro conjI allI impI) blast+
qed

theorem search_ranking_witness:
  "''ts'' \<noteq> [] \<and> (0::nat) < 1
   \<and> 1 < length (fst (search exampleManager exampleHost ''ts'' []))
   \<and> localeCompare exampleHost (name (fst (search exampleManager exampleHost ''ts'' []) ! 0))
         (name (fst (search exampleManager exampleHost ''ts'' []) ! 1)) \<le> 0"
proof -
  have c: "consistentComparator (localeCompare exampleHost)"
    by (simp add: exampleHost_def consistent_defaultCompare)
  have q: "''ts'' \<noteq> []" by simp
  have l: "1 < length (fst (search exampleManager exampleHost ''ts'' []))"
    by code_simp
  have e0: "toLowerCase (name (fst (search exampleManager exampleHost ''ts'' []) ! 0)) \<noteq> toLowerCase ''ts''"
    by code_simp
  have e1: "toLowerCase (name (fst (search exampleManager exampleHost ''ts'' []) ! 1)) \<noteq> toLowerCase ''ts''"
    by code_simp
  have t0: "type (fst (search exampleManager exampleHost ''ts'' []) ! 0) = File"
    by code_simp
  have t1: "type (fst (search exampleManager exampleHost ''ts'' []) ! 1) = File"
    by code_simp
  from search_ranking [OF c q zero_less_one l] e0 e1 t0 t1
  have "localeCompare exampleHost (name (fst (search exampleManager exampleHost ''ts'' []) ! 0))
         (name (fst (search exampleManager exampleHost ''ts'' []) ! 1)) \<le> 0"
    unfolding Let_def by simp
  with q l show ?thesis by simp
qed

text \<open>
  C6 at the scope \<open>src/sub\<close> with the query \<open>src\<close>: the folder \<open>src\<close>, an ancestor of
  the scope, is returned although it is not in scope.
\<close>

theorem folder_outside_scope:
  "map (\<lambda>f. (type f, relativePath f, inScope ''src/sub'' f))
       (fst (search exampleManager nestedHost ''src'' ''src/sub''))
     = [(Folder, ''src'', False), (File, ''src/sub/b.ts'', True)]"
  by code_simp

text \<open>
  C7 at a directory with the folders \<open>B\<close>, \<open>a\<close> and the files \<open>B.txt\<close>, \<open>a.txt\<close>:
  from the snapshot the folders come in code unit order and the files in collation order;
  the fallback listing of the same directory orders both groups by collation.
\<close>

theorem browse_mixed_orders:
  "map (\<lambda>f. (type f, name f)) (fst (search exampleManager mixedCaseHost [] []))
     = [(Folder, ''B''), (Folder, ''a''), (File, ''a.txt''), (File, ''B.txt'')]
   \<and> map (\<lambda>f. (type f, name f)) (getDirectoryContentsFs exampleManager mixedCaseHost [])
     = [(Folder, ''a''), (Folder, ''B''), (File, ''a.txt''), (File, ''B.txt'')]"
  by code_simp

text \<open>
  C8 at a notification that arrives while a build is in flight: the first search starts
  build 1 and suspends; the watcher reports that \<open>new.ts\<close> was created, which clears a
  snapshot that is absent anyway; the build settles with the enumeration taken before and
  stores it with a fresh timestamp; the next search finds the snapshot valid, starts no
  build (the counter stays at 1) and returns nothing for \<open>new\<close>, where a search without
  snapshot returns \<open>new.ts\<close>.
\<close>

theorem notification_during_build_lost:
  "fst (searchBegins idleEngine exampleHost ''a'' []) = Suspended
   \<and> cacheBuildPromise (snd (searchBegins idleEngine exampleHost ''a'' []))
   \<and> fileSystemWatcher (core (snd (searchBegins idleEngine exampleHost ''a'' [])))
   \<and> builds (core (snd (searchBegins idleEngine exampleHost ''a'' []))) = 1
   \<and> fst (searchBegins
            (buildSettles (notified (snd (searchBegins idleEngine exampleHost ''a'' []))) exampleHost)
            changedHost ''new'' []) = Returned []
   \<and> builds (core (snd (searchBegins
            (buildSettles (notified (snd (searchBegins idleEngine exampleHost ''a'' []))) exampleHost)
            changedHost ''new'' []))) = 1
   \<and> map relativePath
        (fst (search (core (notified (snd (searchBegins idleEngine exampleHost ''a'' []))))
                changedHost ''new'' [])) = [''new.ts'']"
  by code_simp

text \<open>
  C9: search is a total function that returns a list, and each failure of the host is one
  of its branches: with an empty workspace root it returns the empty list and changes
  nothing; when the enumeration of a build fails it returns the empty list and leaves the
  snapshot absent; a failing directory listing gives the empty list.
\<close>

theorem search_never_fails:
  "(workspaceRoot m = [] \<longrightarrow> search m h q p = ([], m))
   \<and> (workspaceRoot m \<noteq> [] \<longrightarrow> \<not> isCacheValid m h \<longrightarrow> findFiles h = Inl e \<longrightarrow>
        fst (search m h q p) = [] \<and> cachedData (snd (search m h q p)) = None)
   \<and> (readDirectory h (if p \<noteq> [] then path_join (workspaceRoot m) p else workspaceRoot m) = Inl e
        \<longrightarrow> getDirectoryContentsFs m h p = [])"
  by (auto simp: search_def ensureCache_def buildCache_def getDirectoryContentsFs_def Let_def)

theorem search_never_fails_witness:
  "workspaceRoot (newManager [] True) = []
   \<and> search (newManager [] True) exampleHost ''a'' [] = ([], newManager [] True)
   \<and> workspaceRoot exampleManager \<noteq> [] \<and> \<not> isCacheValid exampleManager failingHost
   \<and> findFiles failingHost = Inl HostError
   \<and> fst (search exampleManager failingHost ''a'' []) = []
   \<and> cachedData (snd (search exampleManager failingHost ''a'' [])) = None
   \<and> readDirectory failingHost (workspaceRoot exampleManager) = Inl HostError
   \<and> getDirectoryContentsFs exampleManager failingHost [] = []"
proof -
  have 1: "workspaceRoot (newManager [] True) = []"
    by (simp add: newManager_def setupFileSystemWatcher_def firstFolder_def)
  have 2: "workspaceRoot exampleManager \<noteq> []"
    by (simp add: exampleManager_def newManager_def setupFileSystemWatcher_def firstFolder_def)
  have 3: "\<not> isCacheValid exampleManager failingHost"
    by (simp add: exampleManager_def newManager_def setupFileSystemWatcher_def isCacheValid_def)
  have 4: "findFiles failingHost = Inl HostError"
    by (simp add: failingHost_def)
  have 5: "readDirectory failingHost (workspaceRoot exampleManager) = Inl HostError"
    by (simp add: failingHost_def exampleHost_def)
  note a = search_never_fails [of "newManager [] True" exampleHost "''a''" "[]" HostError]
  note b = search_never_fails [of exampleManager failingHost "''a''" "[]" HostError]
  from a 1 have 6: "search (newManager [] True) exampleHost ''a'' [] = ([], newManager [] True)"
    by blast
  from b 2 3 4 have 7: "fst (search exampleManager failingHost ''a'' []) = []
      \<and> cachedData (snd (search exampleManager failingHost ''a'' [])) = None"
    by blast
  from b 5 have 8: "getDirectoryContentsFs exampleManager failingHost [] = []"
    by simp
  from 1 2 3 4 5 6 7 8 show ?thesis by simp
qed

text \<open>
  C10: for every suggestion whose relative path does not end with the separator and for
  every flag, extracting the folder path from the insertion format gives the relative path
  back.
\<close>

theorem extract_format_roundtrip:
  assumes "\<not> endsWith (relativePath s) ''/''"
  shows "extractFolderPath (formatForInsertion s b) = relativePath s"
  using assms by (simp add: extractFolderPath_def formatForInsertion_def endsWith_def)

theorem extract_format_roundtrip_witness:
  "\<not> endsWith (relativePath \<lparr>name = ''sub'', fullPath = ''/w/src/sub'', relativePath = ''src/sub'',
        type = Folder, icon = None\<rparr>) ''/''
   \<and> extractFolderPath (formatForInsertion \<lparr>name = ''sub'', fullPath = ''/w/src/sub'',
        relativePath = ''src/sub'', type = Folder, icon = None\<rparr> True) = ''src/sub''"
proof -
  have h: "\<not> endsWith (relativePath \<lparr>name = ''sub'', fullPath = ''/w/src/sub'',
        relativePath = ''src/sub'', type = Folder, icon = None\<rparr>) ''/''"
    by (simp add: endsWith_def suffix_def)
  show ?thesis using h extract_format_roundtrip [OF h, of True] by simp
qed

end
